theory Spec2Isabelle
  imports Complex_Main "HOL-Library.Word"
begin

section \<open>The ECG pipeline of \<open>main.cpp\<close>\<close>

text \<open>
  A shallow embedding of the signal-to-decision pipeline of \<open>main.cpp\<close>: the circular
  sample buffer filled by \<open>loop\<close>, the window reconstruction, heart-rate estimate and
  alert logic of \<open>processECGData\<close>, \<open>calculateHeartRate\<close>, \<open>detectAnomaly\<close>,
  \<open>rbfKernel\<close>, \<open>standardizeFeatures\<close> and \<open>setupSVMModel\<close>.

  Modelling decisions, all of them visible in the definitions:
  \<^item> A C++ \<open>float\<close> is modelled as the \<open>real\<close> it denotes, and arithmetic on floats
    as exact arithmetic on reals. Comparisons of finite floats are exact, so the peak
    counter takes the branches the program takes. Rounding, overflow, underflow,
    infinities and NaN are not modelled: what is proved below is which expression the
    program evaluates and which branch it takes, not how far the rounded value is
    from the exact one. A division by a zero deviation is outside the model, and the
    statements that depend on the quotient assume that no deviation is zero.
  \<^item> \<open>std::vector::operator[]\<close> does not check its index. A read or write outside the
    vector is undefined behaviour; the model returns \<open>None\<close> there, and \<open>Some\<close> of the
    result everywhere else.
  \<^item> \<open>unsigned long\<close> is 32 bits wide on the ESP32: \<open>millis()\<close> readings and
    \<open>lastAnomalyTime\<close> are \<open>32 word\<close>, and their difference wraps around.
  \<^item> \<open>int\<close> and \<open>size_t\<close> counters and indices that are never negative and stay far
    below \<open>2^31\<close> (loop counters, \<open>bufferIndex\<close>, \<open>peakCount\<close>) are \<open>nat\<close>.
\<close>

subsection \<open>Constants\<close>

definition ECG_BUFFER_SIZE :: nat where
  "ECG_BUFFER_SIZE = 140"

definition SAMPLING_RATE :: nat where
  "SAMPLING_RATE = 360"

definition BUZZER_DURATION :: "32 word" where
  "BUZZER_DURATION = 500"

definition ANOMALY_COOLDOWN :: "32 word" where
  "ANOMALY_COOLDOWN = 3000"

text \<open>An unchecked vector read: \<open>None\<close> stands for the out-of-range access.\<close>

definition vec_at :: "'a list \<Rightarrow> nat \<Rightarrow> 'a option" where
  "vec_at xs i = (if i < length xs then Some (xs ! i) else None)"

subsection \<open>The circular sample buffer\<close>

text \<open>
  The globals \<open>ecgBuffer\<close> (a vector of \<open>ECG_BUFFER_SIZE\<close> zeros at start) and
  \<open>bufferIndex\<close> (0 at start).
\<close>

record sample_buffer =
  ecgBuffer :: "real list"
  bufferIndex :: nat

definition initial_buffer :: sample_buffer where
  "initial_buffer = \<lparr>ecgBuffer = replicate ECG_BUFFER_SIZE 0, bufferIndex = 0\<rparr>"

text \<open>
  \<open>loop\<close>, the two statements that add a sample:
  \<^verbatim>\<open>ecgBuffer[bufferIndex] = voltage;\<close>
  \<^verbatim>\<open>bufferIndex = (bufferIndex + 1) % ECG_BUFFER_SIZE;\<close>
\<close>

definition store_sample :: "sample_buffer \<Rightarrow> real \<Rightarrow> sample_buffer option" where
  "store_sample b voltage =
     (if bufferIndex b < length (ecgBuffer b)
      then Some \<lparr>ecgBuffer = (ecgBuffer b)[bufferIndex b := voltage],
                 bufferIndex = (bufferIndex b + 1) mod ECG_BUFFER_SIZE\<rparr>
      else None)"

text \<open>
  \<open>processECGData\<close>, the loop that copies the buffer into \<open>currentECG\<close>:
  \<^verbatim>\<open>for (int i = 0; i < ECG_BUFFER_SIZE; i++) {\<close>
  \<^verbatim>\<open>    int idx = (bufferIndex + i) % ECG_BUFFER_SIZE;\<close>
  \<^verbatim>\<open>    currentECG[i] = ecgBuffer[idx]; }\<close>
  The function is called with \<open>i = 0\<close> and \<open>currentECG\<close> a vector of
  \<open>ECG_BUFFER_SIZE\<close> zeros.
\<close>

function reconstruct :: "sample_buffer \<Rightarrow> nat \<Rightarrow> real list \<Rightarrow> real list option" where
  "reconstruct b i currentECG =
     (if i < ECG_BUFFER_SIZE
      then (case vec_at (ecgBuffer b) ((bufferIndex b + i) mod ECG_BUFFER_SIZE) of
              None \<Rightarrow> None
            | Some v \<Rightarrow>
                if i < length currentECG
                then reconstruct b (i + 1) (currentECG[i := v])
                else None)
      else Some currentECG)"
  by pat_completeness auto
termination
  by (relation "measure (\<lambda>(b, i, c). ECG_BUFFER_SIZE - i)") auto

definition currentECG_of :: "sample_buffer \<Rightarrow> real list option" where
  "currentECG_of b = reconstruct b 0 (replicate ECG_BUFFER_SIZE 0)"

text \<open>
  One pass through the sampling branch of \<open>loop\<close>, as far as the buffer is concerned:
  the sample is stored, and when the index has wrapped to 0 \<open>processECGData\<close> runs on
  the window it reconstructs. The result is the new buffer and that window, if any;
  the outer \<open>None\<close> is an out-of-range access.
\<close>

definition push :: "sample_buffer \<Rightarrow> real \<Rightarrow> (sample_buffer \<times> real list option) option" where
  "push b voltage =
     (case store_sample b voltage of
        None \<Rightarrow> None
      | Some b' \<Rightarrow>
          if bufferIndex b' = 0
          then (case currentECG_of b' of
                  None \<Rightarrow> None
                | Some w \<Rightarrow> Some (b', Some w))
          else Some (b', None))"

text \<open>Pushing a sequence of samples, collecting what each push returned.\<close>

fun pushes :: "sample_buffer \<Rightarrow> real list \<Rightarrow> (sample_buffer \<times> real list option list) option" where
  "pushes b [] = Some (b, [])"
| "pushes b (v # vs) =
     (case push b v of
        None \<Rightarrow> None
      | Some (b', out) \<Rightarrow>
          (case pushes b' vs of
             None \<Rightarrow> None
           | Some (b'', outs) \<Rightarrow> Some (b'', out # outs)))"

text \<open>
  What the spec promises of push number \<open>k\<close> (counted from 1) of the samples \<open>vs\<close>: a
  window exactly when \<open>k\<close> is a multiple of the buffer size, holding the last
  \<open>ECG_BUFFER_SIZE\<close> samples pushed, oldest first.
\<close>

definition expected_output :: "real list \<Rightarrow> nat \<Rightarrow> real list option" where
  "expected_output vs k =
     (if k mod ECG_BUFFER_SIZE = 0
      then Some (take ECG_BUFFER_SIZE (drop (k - ECG_BUFFER_SIZE) vs))
      else None)"

text \<open>
  The state of the buffer after the samples \<open>ps\<close> have been pushed, counted from the
  start: the index is their number modulo the size, and the slots below it hold the
  samples of the cycle in progress.
\<close>

definition buffer_inv :: "real list \<Rightarrow> sample_buffer \<Rightarrow> bool" where
  "buffer_inv ps b \<longleftrightarrow>
     length (ecgBuffer b) = ECG_BUFFER_SIZE \<and>
     bufferIndex b = length ps mod ECG_BUFFER_SIZE \<and>
     (\<forall>i < length ps mod ECG_BUFFER_SIZE.
        ecgBuffer b ! i = ps ! (length ps - length ps mod ECG_BUFFER_SIZE + i))"

subsection \<open>The classifier model and feature standardization\<close>

text \<open>The struct \<open>SVMModel\<close>; the program has one global of it, \<open>svmModel\<close>.\<close>

record SVMModel =
  numSupportVectors :: int
  gamma :: real
  bias :: real
  supportVectors :: "real list"
  dualCoefficients :: "real list"
  featureMeans :: "real list"
  featureStds :: "real list"

text \<open>
  \<open>standardizeFeatures\<close> updates its argument in place:
  \<^verbatim>\<open>for (size_t i = 0; i < features.size(); i++)\<close>
  \<^verbatim>\<open>    features[i] = (features[i] - svmModel.featureMeans[i]) / svmModel.featureStds[i];\<close>
  It compares no lengths. The quotient is the real quotient, which is what the program
  computes when the divisor is not zero.
\<close>

function standardizeFeatures_loop :: "SVMModel \<Rightarrow> nat \<Rightarrow> real list \<Rightarrow> real list option" where
  "standardizeFeatures_loop m i features =
     (if i < length features
      then (case vec_at (featureMeans m) i of
              None \<Rightarrow> None
            | Some mu \<Rightarrow>
                (case vec_at (featureStds m) i of
                   None \<Rightarrow> None
                 | Some sd \<Rightarrow>
                     standardizeFeatures_loop m (i + 1) (features[i := (features ! i - mu) / sd])))
      else Some features)"
  by pat_completeness auto
termination
  by (relation "measure (\<lambda>(m, i, features). length features - i)") auto

definition standardizeFeatures :: "SVMModel \<Rightarrow> real list \<Rightarrow> real list option" where
  "standardizeFeatures m features = standardizeFeatures_loop m 0 features"

subsection \<open>The kernel and the classifier\<close>

text \<open>
  \<open>rbfKernel\<close>: the loop runs over \<open>x1.size()\<close> and reads \<open>x2[i]\<close> unchecked.
  \<^verbatim>\<open>for (size_t i = 0; i < x1.size(); i++) {\<close>
  \<^verbatim>\<open>    float diff = x1[i] - x2[i];\<close>
  \<^verbatim>\<open>    squaredDistance += diff * diff; }\<close>
  \<^verbatim>\<open>return exp(-gamma * squaredDistance);\<close>
\<close>

function rbfKernel_loop :: "real list \<Rightarrow> real list \<Rightarrow> nat \<Rightarrow> real \<Rightarrow> real option" where
  "rbfKernel_loop x1 x2 i squaredDistance =
     (if i < length x1
      then (case vec_at x2 i of
              None \<Rightarrow> None
            | Some y \<Rightarrow>
                (let diff = x1 ! i - y
                 in rbfKernel_loop x1 x2 (i + 1) (squaredDistance + diff * diff)))
      else Some squaredDistance)"
  by pat_completeness auto
termination
  by (relation "measure (\<lambda>(x1, x2, i, s). length x1 - i)") auto

definition rbfKernel :: "real list \<Rightarrow> real list \<Rightarrow> real \<Rightarrow> real option" where
  "rbfKernel x1 x2 g =
     (case rbfKernel_loop x1 x2 0 0 of
        None \<Rightarrow> None
      | Some squaredDistance \<Rightarrow> Some (exp (- g * squaredDistance)))"

text \<open>
  \<open>detectAnomaly\<close>, the inner loop that copies support vector \<open>i\<close> out of the flattened
  table into \<open>supportVector\<close>, a fresh vector of \<open>ECG_BUFFER_SIZE\<close> zeros:
  \<^verbatim>\<open>for (int j = 0; j < ECG_BUFFER_SIZE; j++)\<close>
  \<^verbatim>\<open>    supportVector[j] = svmModel.supportVectors[i * ECG_BUFFER_SIZE + j];\<close>
\<close>

function extract_loop :: "SVMModel \<Rightarrow> nat \<Rightarrow> nat \<Rightarrow> real list \<Rightarrow> real list option" where
  "extract_loop m i j supportVector =
     (if j < ECG_BUFFER_SIZE
      then (case vec_at (supportVectors m) (i * ECG_BUFFER_SIZE + j) of
              None \<Rightarrow> None
            | Some v \<Rightarrow>
                if j < length supportVector
                then extract_loop m i (j + 1) (supportVector[j := v])
                else None)
      else Some supportVector)"
  by pat_completeness auto
termination
  by (relation "measure (\<lambda>(m, i, j, sv). ECG_BUFFER_SIZE - j)") auto

text \<open>
  \<open>detectAnomaly\<close>, the outer loop over the support vectors:
  \<^verbatim>\<open>for (int i = 0; i < svmModel.numSupportVectors; i++) {\<close>
  \<^verbatim>\<open>    ... float kernelValue = rbfKernel(features, supportVector, svmModel.gamma);\<close>
  \<^verbatim>\<open>    decision += svmModel.dualCoefficients[i] * kernelValue; }\<close>
\<close>

function decision_loop :: "SVMModel \<Rightarrow> real list \<Rightarrow> nat \<Rightarrow> real \<Rightarrow> real option" where
  "decision_loop m features i decision =
     (if int i < numSupportVectors m
      then (case extract_loop m i 0 (replicate ECG_BUFFER_SIZE 0) of
              None \<Rightarrow> None
            | Some supportVector \<Rightarrow>
                (case rbfKernel features supportVector (gamma m) of
                   None \<Rightarrow> None
                 | Some kernelValue \<Rightarrow>
                     (case vec_at (dualCoefficients m) i of
                        None \<Rightarrow> None
                      | Some c \<Rightarrow>
                          decision_loop m features (i + 1) (decision + c * kernelValue))))
      else Some decision)"
  by pat_completeness auto
termination
  by (relation "measure (\<lambda>(m, features, i, d). nat (numSupportVectors m) - i)") auto

text \<open>
  \<open>detectAnomaly\<close> standardizes a copy of the window, starts the decision at the bias
  and returns \<open>decision < 0\<close>: \<open>True\<close> is an anomaly.
\<close>

definition detectAnomaly :: "SVMModel \<Rightarrow> real list \<Rightarrow> bool option" where
  "detectAnomaly m ecgData =
     (case standardizeFeatures m ecgData of
        None \<Rightarrow> None
      | Some features \<Rightarrow>
          (case decision_loop m features 0 (bias m) of
             None \<Rightarrow> None
           | Some decision \<Rightarrow> Some (decision < 0)))"


text \<open>
  The decision score as the spec writes it: the bias plus, for every support vector
  \<open>k\<close> below \<open>M\<close>, its coefficient times the kernel of the standardized window and
  that support vector, the squared distance summed over every dimension below
  \<open>ECG_BUFFER_SIZE\<close>.
\<close>

definition standardized :: "SVMModel \<Rightarrow> real list \<Rightarrow> nat \<Rightarrow> real" where
  "standardized m w j = (w ! j - featureMeans m ! j) / featureStds m ! j"



subsection \<open>The rate estimator\<close>

text \<open>The local \<open>threshold\<close> of \<open>calculateHeartRate\<close>.\<close>

definition threshold :: real where
  "threshold = 1.5"

text \<open>
  The loop of \<open>calculateHeartRate\<close>, started at \<open>i = 1\<close> with \<open>peakCount = 0\<close> and
  \<open>rising = false\<close>:
  \<^verbatim>\<open>for (size_t i = 1; i < ecgData.size(); i++) {\<close>
  \<^verbatim>\<open>    if (!rising && ecgData[i] > ecgData[i-1] && ecgData[i] > threshold) {\<close>
  \<^verbatim>\<open>        rising = true;\<close>
  \<^verbatim>\<open>    } else if (rising && ecgData[i] < ecgData[i-1]) {\<close>
  \<^verbatim>\<open>        peakCount++; rising = false; } }\<close>
  Both reads are inside the vector, since \<open>1 \<le> i < ecgData.size()\<close>.
\<close>

function peak_loop :: "real list \<Rightarrow> nat \<Rightarrow> nat \<Rightarrow> bool \<Rightarrow> nat" where
  "peak_loop ecgData i peakCount rising =
     (if i < length ecgData
      then (if \<not> rising \<and> ecgData ! i > ecgData ! (i - 1) \<and> ecgData ! i > threshold
            then peak_loop ecgData (i + 1) peakCount True
            else if rising \<and> ecgData ! i < ecgData ! (i - 1)
            then peak_loop ecgData (i + 1) (peakCount + 1) False
            else peak_loop ecgData (i + 1) peakCount rising)
      else peakCount)"
  by pat_completeness auto
termination
  by (relation "measure (\<lambda>(ecgData, i, c, r). length ecgData - i)") auto

definition calculateHeartRate :: "real list \<Rightarrow> real" where
  "calculateHeartRate ecgData =
     (let peakCount = peak_loop ecgData 1 0 False;
          timeWindowInSeconds = real ECG_BUFFER_SIZE / real SAMPLING_RATE
      in (real peakCount * 60) / timeWindowInSeconds)"

text \<open>
  The peak counter as the spec words it, walking the samples after the first one with
  the previous sample and the rising flag: a rise begins at a sample strictly above
  its predecessor and above the threshold while not rising; a peak is counted, and
  the rise ends, at a sample strictly below its predecessor while rising.
\<close>

fun count_peaks :: "real \<Rightarrow> bool \<Rightarrow> real list \<Rightarrow> nat" where
  "count_peaks prev rising [] = 0"
| "count_peaks prev rising (x # xs) =
     (if \<not> rising \<and> x > prev \<and> x > threshold then count_peaks x True xs
      else if rising \<and> x < prev then 1 + count_peaks x False xs
      else count_peaks x rising xs)"

definition peaks_of :: "real list \<Rightarrow> nat" where
  "peaks_of w = (case w of [] \<Rightarrow> 0 | x # xs \<Rightarrow> count_peaks x False xs)"

text \<open>
  A window of \<open>ECG_BUFFER_SIZE\<close> samples that alternates between 0 and 2 volts: 70
  samples lie above the threshold, each one strictly above its predecessor.
\<close>

definition alternating_window :: "real list" where
  "alternating_window = concat (replicate 70 [0, 2])"

text \<open>
  \<open>processECGData\<close>, the update of the global \<open>heartRate\<close> from the estimate of the
  window:
  \<^verbatim>\<open>if (newHeartRate > 0) { heartRate = 0.7 * heartRate + 0.3 * newHeartRate; }\<close>
\<close>

definition smooth_heartRate :: "real \<Rightarrow> real \<Rightarrow> real" where
  "smooth_heartRate heartRate newHeartRate =
     (if newHeartRate > 0 then 0.7 * heartRate + 0.3 * newHeartRate else heartRate)"

subsection \<open>The alert logic\<close>

text \<open>
  The globals \<open>anomalyDetected\<close> and \<open>lastAnomalyTime\<close>, the level of \<open>BUZZER_PIN\<close>
  (\<open>True\<close> is \<open>HIGH\<close>) and the timestamps of the anomaly messages handed to
  \<open>ws.textAll\<close>, oldest first. At boot the flag is false, the time is 0 and \<open>setup\<close>
  drives the pin low.
\<close>

record alert_state =
  anomalyDetected :: bool
  lastAnomalyTime :: "32 word"
  buzzerPin :: bool
  anomalyMessages :: "32 word list"

definition boot_alert_state :: alert_state where
  "boot_alert_state =
     \<lparr>anomalyDetected = False, lastAnomalyTime = 0, buzzerPin = False, anomalyMessages = []\<rparr>"

text \<open>
  \<open>processECGData\<close> reads \<open>millis()\<close> three times when it raises an alert: in the
  condition, for \<open>lastAnomalyTime\<close> and for the timestamp of the message.
\<close>

record millis_readings =
  atCheck :: "32 word"
  atTrigger :: "32 word"
  atMessage :: "32 word"

text \<open>
  \<^verbatim>\<open>if (isAnomaly && (millis() - lastAnomalyTime > ANOMALY_COOLDOWN)) {\<close>
  \<^verbatim>\<open>    lastAnomalyTime = millis(); anomalyDetected = true;\<close>
  \<^verbatim>\<open>    digitalWrite(BUZZER_PIN, HIGH);\<close>
  \<^verbatim>\<open>    ws.textAll("{\"type\":\"anomaly\",\"timestamp\":" + String(millis()) + "}"); }\<close>
  The subtraction and the comparison are those of \<open>unsigned long\<close>.
\<close>

definition alert_step :: "alert_state \<Rightarrow> bool \<Rightarrow> millis_readings \<Rightarrow> alert_state" where
  "alert_step a isAnomaly t =
     (if isAnomaly \<and> atCheck t - lastAnomalyTime a > ANOMALY_COOLDOWN
      then a\<lparr>lastAnomalyTime := atTrigger t,
              anomalyDetected := True,
              buzzerPin := True,
              anomalyMessages := anomalyMessages a @ [atMessage t]\<rparr>
      else a)"

text \<open>
  \<open>loop\<close>, the buzzer timeout:
  \<^verbatim>\<open>if (anomalyDetected && (millis() - lastAnomalyTime > BUZZER_DURATION)) {\<close>
  \<^verbatim>\<open>    digitalWrite(BUZZER_PIN, LOW); anomalyDetected = false; }\<close>
\<close>

definition buzzer_timeout :: "alert_state \<Rightarrow> 32 word \<Rightarrow> alert_state" where
  "buzzer_timeout a now =
     (if anomalyDetected a \<and> now - lastAnomalyTime a > BUZZER_DURATION
      then a\<lparr>buzzerPin := False, anomalyDetected := False\<rparr>
      else a)"

text \<open>
  What reaches the alert logic in a run: the classification of a completed window
  with the clock readings of that call, or a pass of \<open>loop\<close> through the buzzer
  timeout.
\<close>

datatype event = Classified bool millis_readings | Timeout "32 word"

fun alert_event :: "alert_state \<Rightarrow> event \<Rightarrow> alert_state" where
  "alert_event a (Classified isAnomaly t) = alert_step a isAnomaly t"
| "alert_event a (Timeout now) = buzzer_timeout a now"

fun alert_run :: "alert_state \<Rightarrow> event list \<Rightarrow> alert_state" where
  "alert_run a [] = a"
| "alert_run a (e # es) = alert_run (alert_event a e) es"

text \<open>The clock reading at which an event is checked against \<open>lastAnomalyTime\<close>.\<close>

fun checked_at :: "event \<Rightarrow> 32 word" where
  "checked_at (Classified isAnomaly t) = atCheck t"
| "checked_at (Timeout now) = now"

subsection \<open>The program state, \<open>processECGData\<close> and \<open>loop\<close>\<close>

text \<open>
  The globals that the pipeline reads and writes. (The calorie estimate and the
  sampling timer are left out: no statement below depends on them.)
\<close>

record system =
  svmModel :: SVMModel
  samples :: sample_buffer
  heartRate :: real
  alerts :: alert_state
  startTime :: "32 word"
  lastCalorieUpdate :: "32 word"

text \<open>
  \<open>processECGData\<close>: reconstruct the window, estimate and smooth the heart rate,
  classify, and run the alert logic. \<open>None\<close> is an access outside a vector.
\<close>

definition processECGData :: "system \<Rightarrow> millis_readings \<Rightarrow> system option" where
  "processECGData s t =
     (case currentECG_of (samples s) of
        None \<Rightarrow> None
      | Some currentECG \<Rightarrow>
          (let newHeartRate = calculateHeartRate currentECG;
               heartRate' = smooth_heartRate (heartRate s) newHeartRate
           in (case detectAnomaly (svmModel s) currentECG of
                 None \<Rightarrow> None
               | Some isAnomaly \<Rightarrow>
                   Some (s\<lparr>heartRate := heartRate',
                           alerts := alert_step (alerts s) isAnomaly t\<rparr>))))"

text \<open>
  The sampling branch of \<open>loop\<close>: store the sample, and run \<open>processECGData\<close> when
  the index has wrapped to 0.
\<close>

definition loop_sample :: "system \<Rightarrow> real \<Rightarrow> millis_readings \<Rightarrow> system option" where
  "loop_sample s voltage t =
     (case store_sample (samples s) voltage of
        None \<Rightarrow> None
      | Some b \<Rightarrow>
          if bufferIndex b = 0
          then processECGData (s\<lparr>samples := b\<rparr>) t
          else Some (s\<lparr>samples := b\<rparr>))"

subsection \<open>Startup\<close>








subsection \<open>Concrete inputs\<close>


text \<open>A model with two dimensions, no support vectors, means 1 and deviations 2.\<close>

definition two_dim_model :: SVMModel where
  "two_dim_model =
     \<lparr>numSupportVectors = 0, gamma = 0.01, bias = - 0.5,
      supportVectors = [], dualCoefficients = [],
      featureMeans = [1, 1], featureStds = [2, 2]\<rparr>"


text \<open>A window with one pulse above the threshold, flat at 0 elsewhere.\<close>

definition single_peak_window :: "real list" where
  "single_peak_window = [0, 2, 0] @ replicate (ECG_BUFFER_SIZE - 3) 0"

text \<open>
  The alert state after a first alert whose three clock readings were 5000, 5001 and
  5002.
\<close>

definition alerted_state :: alert_state where
  "alerted_state =
     \<lparr>anomalyDetected = True, lastAnomalyTime = 5001, buzzerPin = True,
      anomalyMessages = [5002]\<rparr>"


text \<open>
  The recursive equations of the loops are used one step at a time in the proofs,
  never as rewrite rules.
\<close>

declare reconstruct.simps [simp del]
declare standardizeFeatures_loop.simps [simp del]
declare rbfKernel_loop.simps [simp del]
declare extract_loop.simps [simp del]
declare decision_loop.simps [simp del]
declare peak_loop.simps [simp del]

subsection \<open>Facts about the sample buffer\<close>

lemma ECG_BUFFER_SIZE_pos: "0 < ECG_BUFFER_SIZE"
  by (simp add: ECG_BUFFER_SIZE_def)

lemma reconstruct_full:
  assumes "length (ecgBuffer b) = ECG_BUFFER_SIZE" "length c = ECG_BUFFER_SIZE" "i \<le> ECG_BUFFER_SIZE"
  shows "reconstruct b i c =
    Some (take i c @ map (\<lambda>j. ecgBuffer b ! ((bufferIndex b + j) mod ECG_BUFFER_SIZE)) [i..<ECG_BUFFER_SIZE])"
  using assms
proof (induction b i c rule: reconstruct.induct)
  case (1 b i c)
  show ?case
  proof (cases "i < ECG_BUFFER_SIZE")
    case True
    let ?v = "ecgBuffer b ! ((bufferIndex b + i) mod ECG_BUFFER_SIZE)"
    have at: "vec_at (ecgBuffer b) ((bufferIndex b + i) mod ECG_BUFFER_SIZE) = Some ?v"
      using 1(2) ECG_BUFFER_SIZE_pos by (simp add: vec_at_def)
    have il: "i < length c" using True 1(3) by simp
    have IH: "reconstruct b (i + 1) (c[i := ?v]) =
      Some (take (i + 1) (c[i := ?v]) @ map (\<lambda>j. ecgBuffer b ! ((bufferIndex b + j) mod ECG_BUFFER_SIZE)) [i + 1..<ECG_BUFFER_SIZE])"
      using "1.IH"[OF True at il] 1(2,3) True by simp
    have tk: "take (i + 1) (c[i := ?v]) = take i c @ [?v]"
      using il by (simp add: take_Suc_conv_app_nth)
    have up: "[i..<ECG_BUFFER_SIZE] = i # [i + 1..<ECG_BUFFER_SIZE]"
      using True by (simp add: upt_conv_Cons)
    have "reconstruct b i c = reconstruct b (i + 1) (c[i := ?v])"
      using True at il by (subst reconstruct.simps) simp
    then show ?thesis using IH tk up by simp
  next
    case False
    then have "i = ECG_BUFFER_SIZE" using 1(4) by simp
    then show ?thesis using 1(3) by (subst reconstruct.simps) simp
  qed
qed

lemma buffer_inv_initial: "buffer_inv [] initial_buffer"
  by (simp add: buffer_inv_def initial_buffer_def)

lemma currentECG_of_wrapped:
  assumes "length (ecgBuffer b) = ECG_BUFFER_SIZE" "bufferIndex b = 0"
  shows "currentECG_of b = Some (ecgBuffer b)"
proof -
  have "currentECG_of b = Some (map (\<lambda>j. ecgBuffer b ! ((bufferIndex b + j) mod ECG_BUFFER_SIZE)) [0..<ECG_BUFFER_SIZE])"
    unfolding currentECG_of_def using reconstruct_full[OF assms(1), of "replicate ECG_BUFFER_SIZE 0" 0]
    by simp
  also have "map (\<lambda>j. ecgBuffer b ! ((bufferIndex b + j) mod ECG_BUFFER_SIZE)) [0..<ECG_BUFFER_SIZE]
     = map (\<lambda>j. ecgBuffer b ! j) [0..<length (ecgBuffer b)]"
    using assms by simp
  also have "\<dots> = ecgBuffer b" by (rule map_nth)
  finally show ?thesis .
qed

lemma expected_output_append:
  assumes "0 < k" "k \<le> length xs"
  shows "expected_output (xs @ ys) k = expected_output xs k"
proof (cases "k mod ECG_BUFFER_SIZE = 0")
  case True
  then have "ECG_BUFFER_SIZE dvd k" by (simp add: dvd_eq_mod_eq_0)
  then have "ECG_BUFFER_SIZE \<le> k" using assms(1) by (rule dvd_imp_le)
  then show ?thesis using assms by (simp add: expected_output_def)
next
  case False
  then show ?thesis by (simp add: expected_output_def)
qed

lemma push_inv:
  assumes inv: "buffer_inv ps b"
  shows "\<exists>b'. push b v = Some (b', expected_output (ps @ [v]) (length ps + 1)) \<and>
               buffer_inv (ps @ [v]) b'"
proof -
  let ?N = ECG_BUFFER_SIZE
  let ?k = "length ps"
  let ?r = "?k mod ?N"
  let ?b' = "\<lparr>ecgBuffer = (ecgBuffer b)[?r := v], bufferIndex = (?r + 1) mod ?N\<rparr>"
  have len: "length (ecgBuffer b) = ?N" and idx: "bufferIndex b = ?r"
    and old: "\<And>i. i < ?r \<Longrightarrow> ecgBuffer b ! i = ps ! (?k - ?r + i)"
    using inv by (simp_all add: buffer_inv_def)
  have r_lt: "?r < ?N" using ECG_BUFFER_SIZE_pos by simp
  have r_le: "?r \<le> ?k" by (rule mod_less_eq_dividend)
  have store: "store_sample b v = Some ?b'"
    using len idx r_lt by (simp add: store_sample_def)
  have idx': "(?r + 1) mod ?N = (?k + 1) mod ?N"
    by (simp add: mod_Suc_eq)
  have new: "\<And>i. i \<le> ?r \<Longrightarrow> (ecgBuffer b)[?r := v] ! i = (ps @ [v]) ! (?k - ?r + i)"
  proof -
    fix i assume "i \<le> ?r"
    show "(ecgBuffer b)[?r := v] ! i = (ps @ [v]) ! (?k - ?r + i)"
    proof (cases "i = ?r")
      case True
      then show ?thesis using r_lt len r_le by (simp add: nth_append)
    next
      case False
      then have i: "i < ?r" using \<open>i \<le> ?r\<close> by simp
      then have "?k - ?r + i < ?k" using r_le by linarith
      then have "(ps @ [v]) ! (?k - ?r + i) = ps ! (?k - ?r + i)" by (simp add: nth_append)
      then show ?thesis using old[OF i] i by simp
    qed
  qed
  show ?thesis
  proof (cases "(?k + 1) mod ?N = 0")
    case True
    then have r_eq: "?r + 1 = ?N"
      using r_lt by (simp add: mod_Suc split: if_splits)
    have N_le: "?N \<le> ?k + 1" using r_eq r_le by linarith
    have cur: "currentECG_of ?b' = Some ((ecgBuffer b)[?r := v])"
      using currentECG_of_wrapped[of ?b'] len True idx' by simp
    have tk: "take ?N (drop (?k + 1 - ?N) (ps @ [v])) = (ecgBuffer b)[?r := v]"
    proof (rule nth_equalityI)
      show "length (take ?N (drop (?k + 1 - ?N) (ps @ [v]))) = length ((ecgBuffer b)[?r := v])"
        using len N_le by simp
    next
      fix i assume "i < length (take ?N (drop (?k + 1 - ?N) (ps @ [v])))"
      then have i: "i < ?N" by simp
      then have "i \<le> ?r" using r_eq by simp
      from new[OF this] have "(ecgBuffer b)[?r := v] ! i = (ps @ [v]) ! (?k - ?r + i)" .
      moreover have "?k - ?r = ?k + 1 - ?N" using r_eq N_le by linarith
      moreover have "take ?N (drop (?k + 1 - ?N) (ps @ [v])) ! i = (ps @ [v]) ! (?k + 1 - ?N + i)"
      proof -
        have "take ?N (drop (?k + 1 - ?N) (ps @ [v])) ! i = drop (?k + 1 - ?N) (ps @ [v]) ! i"
          using i by (rule nth_take)
        also have "\<dots> = (ps @ [v]) ! (?k + 1 - ?N + i)"
          by (rule nth_drop) simp
        finally show ?thesis .
      qed
      ultimately show "take ?N (drop (?k + 1 - ?N) (ps @ [v])) ! i = (ecgBuffer b)[?r := v] ! i"
        by simp
    qed
    have out: "expected_output (ps @ [v]) (?k + 1) = Some ((ecgBuffer b)[?r := v])"
      by (simp only: expected_output_def True tk simp_thms if_True)
    have p: "push b v = Some (?b', expected_output (ps @ [v]) (?k + 1))"
      using store cur out True idx' by (simp add: push_def)
    have "buffer_inv (ps @ [v]) ?b'"
      using len True idx' by (simp add: buffer_inv_def)
    with p show ?thesis by blast
  next
    case False
    then have r_eq: "(?k + 1) mod ?N = ?r + 1"
      by (simp add: mod_Suc split: if_splits)
    have out: "expected_output (ps @ [v]) (?k + 1) = None"
      using False by (simp add: expected_output_def)
    have p: "push b v = Some (?b', expected_output (ps @ [v]) (?k + 1))"
      using store out False idx' by (simp add: push_def)
    have "\<forall>i < (?k + 1) mod ?N. ecgBuffer ?b' ! i = (ps @ [v]) ! (?k + 1 - (?k + 1) mod ?N + i)"
    proof (intro allI impI)
      fix i assume "i < (?k + 1) mod ?N"
      then have "i \<le> ?r" using r_eq by simp
      from new[OF this] have "(ecgBuffer b)[?r := v] ! i = (ps @ [v]) ! (?k - ?r + i)" .
      moreover have "?k + 1 - (?k + 1) mod ?N = ?k - ?r" using r_eq r_le by simp
      ultimately show "ecgBuffer ?b' ! i = (ps @ [v]) ! (?k + 1 - (?k + 1) mod ?N + i)" by simp
    qed
    then have "buffer_inv (ps @ [v]) ?b'"
      using len idx' by (simp add: buffer_inv_def)
    with p show ?thesis by blast
  qed
qed

lemma pushes_inv:
  assumes "buffer_inv ps b"
  shows "\<exists>b'. pushes b vs =
            Some (b', map (expected_output (ps @ vs)) [length ps + 1..<length ps + length vs + 1]) \<and>
          buffer_inv (ps @ vs) b'"
  using assms
proof (induction vs arbitrary: ps b)
  case Nil
  then show ?case by simp
next
  case (Cons v vs)
  from push_inv[OF Cons.prems, of v] obtain b1 where
    p: "push b v = Some (b1, expected_output (ps @ [v]) (length ps + 1))"
    and inv1: "buffer_inv (ps @ [v]) b1" by blast
  from Cons.IH[OF inv1] obtain b2 where
    ps: "pushes b1 vs = Some (b2, map (expected_output ((ps @ [v]) @ vs))
            [length (ps @ [v]) + 1..<length (ps @ [v]) + length vs + 1])"
    and inv2: "buffer_inv ((ps @ [v]) @ vs) b2" by blast
  have e: "expected_output (ps @ [v]) (length ps + 1) = expected_output (ps @ v # vs) (length ps + 1)"
    using expected_output_append[of "length ps + 1" "ps @ [v]" vs] by simp
  have "[length ps + 1..<length ps + length (v # vs) + 1] =
           (length ps + 1) # [Suc (length ps + 1)..<length ps + length (v # vs) + 1]"
    by (rule upt_conv_Cons) simp
  then have u: "[length ps + 1..<length ps + length (v # vs) + 1] =
           (length ps + 1) # [length (ps @ [v]) + 1..<length (ps @ [v]) + length vs + 1]"
    by simp
  have "pushes b (v # vs) = Some (b2, map (expected_output (ps @ v # vs))
            [length ps + 1..<length ps + length (v # vs) + 1])"
    using p ps e unfolding u by simp
  then show ?case using inv2 by auto
qed

subsection \<open>Facts about standardization, the kernel and the classifier\<close>

lemma standardizeFeatures_loop_full:
  assumes "length fs \<le> length (featureMeans m)" "length fs \<le> length (featureStds m)"
    "i \<le> length fs"
  shows "standardizeFeatures_loop m i fs =
    Some (take i fs @ map (standardized m fs) [i..<length fs])"
  using assms
proof (induction m i fs rule: standardizeFeatures_loop.induct)
  case (1 m i fs)
  show ?case
  proof (cases "i < length fs")
    case True
    let ?v = "(fs ! i - featureMeans m ! i) / featureStds m ! i"
    let ?fs' = "fs[i := ?v]"
    have mu: "vec_at (featureMeans m) i = Some (featureMeans m ! i)"
      and sd: "vec_at (featureStds m) i = Some (featureStds m ! i)"
      using True 1(2,3) by (simp_all add: vec_at_def)
    have step: "standardizeFeatures_loop m i fs = standardizeFeatures_loop m (i + 1) ?fs'"
      using True mu sd by (subst standardizeFeatures_loop.simps) simp
    have IH: "standardizeFeatures_loop m (i + 1) ?fs' =
      Some (take (i + 1) ?fs' @ map (standardized m ?fs') [i + 1..<length ?fs'])"
      using "1.IH"[OF True mu sd] 1(2,3) True by simp
    have tk: "take (i + 1) ?fs' = take i fs @ [standardized m fs i]"
      using True by (simp add: take_Suc_conv_app_nth standardized_def)
    have mp: "map (standardized m ?fs') [i + 1..<length ?fs'] = map (standardized m fs) [i + 1..<length fs]"
      by (simp add: standardized_def)
    have up: "[i..<length fs] = i # [i + 1..<length fs]"
      using True by (simp add: upt_conv_Cons)
    show ?thesis unfolding step IH tk mp up by simp
  next
    case False
    then have "i = length fs" using 1(4) by simp
    then show ?thesis by (subst standardizeFeatures_loop.simps) simp
  qed
qed

lemma standardizeFeatures_in_range:
  assumes "length w \<le> length (featureMeans m)" "length w \<le> length (featureStds m)"
  shows "standardizeFeatures m w = Some (map (standardized m w) [0..<length w])"
  using standardizeFeatures_loop_full[OF assms, of 0] by (simp add: standardizeFeatures_def)

lemma standardizeFeatures_loop_out_of_range:
  assumes "length (featureMeans m) < length fs \<or> length (featureStds m) < length fs"
    "i \<le> length (featureMeans m)" "i \<le> length (featureStds m)"
  shows "standardizeFeatures_loop m i fs = None"
  using assms
proof (induction m i fs rule: standardizeFeatures_loop.induct)
  case (1 m i fs)
  have lt: "i < length fs" using 1(2,3,4) by auto
  show ?case
  proof (cases "i < length (featureMeans m) \<and> i < length (featureStds m)")
    case True
    then have mu: "vec_at (featureMeans m) i = Some (featureMeans m ! i)"
      and sd: "vec_at (featureStds m) i = Some (featureStds m ! i)"
      by (simp_all add: vec_at_def)
    have "standardizeFeatures_loop m (i + 1) (fs[i := (fs ! i - featureMeans m ! i) / featureStds m ! i]) = None"
      using "1.IH"[OF lt mu sd] 1(2) True by simp
    then show ?thesis using lt mu sd by (subst standardizeFeatures_loop.simps) simp
  next
    case False
    show ?thesis
    proof (cases "i < length (featureMeans m)")
      case True
      then have "vec_at (featureMeans m) i = Some (featureMeans m ! i)"
        and "vec_at (featureStds m) i = None"
        using False by (simp_all add: vec_at_def)
      then show ?thesis using lt by (subst standardizeFeatures_loop.simps) simp
    next
      case False
      then have "vec_at (featureMeans m) i = None" by (simp add: vec_at_def)
      then show ?thesis using lt by (subst standardizeFeatures_loop.simps) simp
    qed
  qed
qed









subsection \<open>Facts about the rate estimator\<close>

lemma peak_loop_count_peaks:
  assumes "1 \<le> i" "i \<le> length w"
  shows "peak_loop w i c r = c + count_peaks (w ! (i - 1)) r (drop i w)"
  using assms
proof (induction w i c r rule: peak_loop.induct)
  case (1 w i c r)
  show ?case
  proof (cases "i < length w")
    case True
    have d: "drop i w = w ! i # drop (i + 1) w"
      using True by (simp add: Cons_nth_drop_Suc)
    have nx: "1 \<le> i + 1" "i + 1 \<le> length w" using True by simp_all
    show ?thesis
    proof (cases "\<not> r \<and> w ! i > w ! (i - 1) \<and> w ! i > threshold")
      case rise: True
      have "peak_loop w i c r = peak_loop w (i + 1) c True"
        using True rise by (subst peak_loop.simps) simp
      also have "\<dots> = c + count_peaks (w ! i) True (drop (i + 1) w)"
        using "1.IH"(1)[OF True rise nx] by simp
      finally show ?thesis using rise unfolding d by simp
    next
      case no_rise: False
      show ?thesis
      proof (cases "r \<and> w ! i < w ! (i - 1)")
        case fall: True
        have "peak_loop w i c r = peak_loop w (i + 1) (c + 1) False"
          using True no_rise fall by (subst peak_loop.simps) auto
        also have "\<dots> = c + 1 + count_peaks (w ! i) False (drop (i + 1) w)"
          using "1.IH"(2)[OF True no_rise fall nx] by simp
        finally show ?thesis using no_rise fall unfolding d by auto
      next
        case no_fall: False
        have "peak_loop w i c r = peak_loop w (i + 1) c r"
          using True no_rise no_fall by (subst peak_loop.simps) auto
        also have "\<dots> = c + count_peaks (w ! i) r (drop (i + 1) w)"
          using "1.IH"(3)[OF True no_rise no_fall nx] by simp
        finally show ?thesis using no_rise no_fall unfolding d by auto
      qed
    qed
  next
    case False
    then have "i = length w" using 1(5) by simp
    then show ?thesis by (subst peak_loop.simps) simp
  qed
qed

lemma peak_loop_peaks_of: "peak_loop w 1 0 False = peaks_of w"
proof (cases w)
  case Nil
  then show ?thesis by (subst peak_loop.simps) (simp add: peaks_of_def)
next
  case (Cons x xs)
  then show ?thesis
    using peak_loop_count_peaks[of 1 w 0 False] by (simp add: peaks_of_def)
qed

lemma count_peaks_bound:
  "2 * count_peaks prev r xs \<le> length xs + (if r then 1 else 0)"
proof (induction xs arbitrary: prev r)
  case Nil
  then show ?case by simp
next
  case (Cons x xs)
  show ?case
    using Cons.IH[of x True] Cons.IH[of x False] by (cases r) auto
qed

lemma peaks_of_bound: "2 * peaks_of w \<le> length w - 1"
proof (cases w)
  case Nil
  then show ?thesis by (simp add: peaks_of_def)
next
  case (Cons x xs)
  then show ?thesis using count_peaks_bound[of x False xs] by (simp add: peaks_of_def)
qed

lemma count_peaks_alternating:
  "count_peaks 2 True (concat (replicate n [0, 2])) = n"
  by (induction n) (simp_all add: threshold_def)

lemma peaks_of_alternating: "peaks_of alternating_window = 69"
proof -
  have e: "alternating_window = 0 # 2 # concat (replicate 69 [0, 2])"
    unfolding alternating_window_def
    by (simp add: numeral_eq_Suc)
  show ?thesis
    unfolding peaks_of_def e by (simp add: count_peaks_alternating threshold_def)
qed

subsection \<open>Facts about the alert logic\<close>

lemma alert_step_within_cooldown:
  assumes "atCheck t - lastAnomalyTime a \<le> ANOMALY_COOLDOWN"
  shows "alert_step a isAnomaly t = a"
proof -
  have "\<not> ANOMALY_COOLDOWN < atCheck t - lastAnomalyTime a"
    using assms by (simp add: not_less)
  then show ?thesis by (simp add: alert_step_def)
qed

lemma alert_step_trigger:
  assumes "ANOMALY_COOLDOWN < atCheck t - lastAnomalyTime a"
  shows "alert_step a True t =
    a\<lparr>lastAnomalyTime := atTrigger t, anomalyDetected := True, buzzerPin := True,
      anomalyMessages := anomalyMessages a @ [atMessage t]\<rparr>"
  using assms by (simp add: alert_step_def)

lemma buzzer_timeout_keeps:
  "lastAnomalyTime (buzzer_timeout a now) = lastAnomalyTime a"
  "anomalyMessages (buzzer_timeout a now) = anomalyMessages a"
  "buzzerPin (buzzer_timeout a now) \<longrightarrow> buzzerPin a"
  by (simp_all add: buzzer_timeout_def)

lemma alert_event_within_cooldown:
  assumes "checked_at e - lastAnomalyTime a \<le> ANOMALY_COOLDOWN"
  shows "lastAnomalyTime (alert_event a e) = lastAnomalyTime a"
    and "anomalyMessages (alert_event a e) = anomalyMessages a"
    and "buzzerPin (alert_event a e) \<longrightarrow> buzzerPin a"
  using assms
  by (cases e; simp add: alert_step_within_cooldown buzzer_timeout_keeps)+

lemma alert_run_within_cooldown:
  assumes "\<forall>e \<in> set es. checked_at e - lastAnomalyTime a \<le> ANOMALY_COOLDOWN"
  shows "lastAnomalyTime (alert_run a es) = lastAnomalyTime a \<and>
         anomalyMessages (alert_run a es) = anomalyMessages a \<and>
         (buzzerPin (alert_run a es) \<longrightarrow> buzzerPin a)"
  using assms
proof (induction es arbitrary: a)
  case Nil
  then show ?case by simp
next
  case (Cons e es)
  have e: "checked_at e - lastAnomalyTime a \<le> ANOMALY_COOLDOWN"
    using Cons.prems by simp
  note step = alert_event_within_cooldown[OF e]
  have "\<forall>e' \<in> set es. checked_at e' - lastAnomalyTime (alert_event a e) \<le> ANOMALY_COOLDOWN"
    using Cons.prems step(1) by simp
  from Cons.IH[OF this] show ?case using step by simp
qed

lemma second_within_cooldown:
  fixes c d l :: "32 word"
  assumes "d - c \<le> 100"
  shows "(c + 100) - d \<le> ANOMALY_COOLDOWN"
proof -
  have "(c + 100) - d = 100 - (d - c)" by simp
  also have "\<dots> \<le> 100" using assms by (rule word_sub_le)
  also have "(100 :: 32 word) \<le> ANOMALY_COOLDOWN" by (simp add: ANOMALY_COOLDOWN_def)
  finally show ?thesis .
qed

lemma two_anomalies:
  assumes "atCheck t2 = atCheck t1 + 100" "atTrigger t1 - atCheck t1 \<le> 100"
  shows "anomalyMessages (alert_run a [Classified True t1, Classified True t2]) =
     (if ANOMALY_COOLDOWN < atCheck t1 - lastAnomalyTime a then anomalyMessages a @ [atMessage t1]
      else if ANOMALY_COOLDOWN < atCheck t2 - lastAnomalyTime a then anomalyMessages a @ [atMessage t2]
      else anomalyMessages a)"
proof (cases "ANOMALY_COOLDOWN < atCheck t1 - lastAnomalyTime a")
  case True
  let ?a1 = "alert_step a True t1"
  have a1: "?a1 = a\<lparr>lastAnomalyTime := atTrigger t1, anomalyDetected := True, buzzerPin := True,
      anomalyMessages := anomalyMessages a @ [atMessage t1]\<rparr>"
    using True by (rule alert_step_trigger)
  have "atCheck t2 - lastAnomalyTime ?a1 \<le> ANOMALY_COOLDOWN"
    using second_within_cooldown[OF assms(2)] by (simp add: a1 assms(1))
  then have "alert_step ?a1 True t2 = ?a1" by (rule alert_step_within_cooldown)
  then show ?thesis using True by (simp add: a1)
next
  case False
  then have "alert_step a True t1 = a" by (simp add: alert_step_def)
  then show ?thesis using False by (simp add: alert_step_def)
qed

lemma boot_run:
  assumes "\<forall>e \<in> set es. checked_at e \<le> ANOMALY_COOLDOWN"
  shows "alert_run boot_alert_state es = boot_alert_state"
  using assms
proof (induction es)
  case Nil
  then show ?case by simp
next
  case (Cons e es)
  have "alert_event boot_alert_state e = boot_alert_state"
  proof (cases e)
    case (Classified isAnomaly t)
    then have "atCheck t - lastAnomalyTime boot_alert_state \<le> ANOMALY_COOLDOWN"
      using Cons.prems by (simp add: boot_alert_state_def)
    then show ?thesis using Classified by (simp add: alert_step_within_cooldown)
  next
    case (Timeout now)
    then show ?thesis by (simp add: buzzer_timeout_def boot_alert_state_def)
  qed
  then show ?case using Cons by simp
qed

lemma boot_first_alert:
  "alert_step boot_alert_state True t =
     (if ANOMALY_COOLDOWN < atCheck t
      then \<lparr>anomalyDetected = True, lastAnomalyTime = atTrigger t, buzzerPin = True,
             anomalyMessages = [atMessage t]\<rparr>
      else boot_alert_state)"
  by (simp add: alert_step_def boot_alert_state_def)

subsection \<open>Facts about startup\<close>





subsection \<open>How \<open>processECGData\<close> and \<open>loop\<close> use the parts\<close>

lemma processECGData_result:
  assumes "currentECG_of (samples s) = Some w" "detectAnomaly (svmModel s) w = Some isAnomaly"
  shows "processECGData s t =
    Some (s\<lparr>heartRate := smooth_heartRate (heartRate s) (calculateHeartRate w),
            alerts := alert_step (alerts s) isAnomaly t\<rparr>)"
  by (simp add: processECGData_def Let_def assms)

lemma loop_sample_no_window:
  assumes "push (samples s) v = Some (b, None)"
  shows "loop_sample s v t = Some (s\<lparr>samples := b\<rparr>)"
  using assms
  by (auto simp: push_def loop_sample_def split: option.splits if_splits)

lemma loop_sample_window:
  assumes "push (samples s) v = Some (b, Some w)"
  shows "loop_sample s v t = processECGData (s\<lparr>samples := b\<rparr>) t \<and> currentECG_of b = Some w"
  using assms
  by (auto simp: push_def loop_sample_def split: option.splits if_splits)

subsection \<open>Facts about the concrete inputs\<close>



lemma calculateHeartRate_peaks_of:
  "calculateHeartRate w = real (peaks_of w) * 60 / (real ECG_BUFFER_SIZE / real SAMPLING_RATE)"
  unfolding calculateHeartRate_def Let_def peak_loop_peaks_of by simp

lemma length_alternating_window: "length alternating_window = ECG_BUFFER_SIZE"
  by (simp add: alternating_window_def ECG_BUFFER_SIZE_def length_concat sum_list_replicate)

lemma above_threshold_alternating:
  "length (filter (\<lambda>x. x > threshold) (concat (replicate n [0, 2]))) = n"
  by (induction n) (simp_all add: threshold_def)

lemma peaks_of_single_peak_window: "peaks_of single_peak_window = 1"
proof -
  have "count_peaks 0 False (replicate n 0) = 0" for n
    by (induction n) simp_all
  then show ?thesis
    by (simp add: peaks_of_def single_peak_window_def threshold_def)
qed

lemma length_single_peak_window: "length single_peak_window = ECG_BUFFER_SIZE"
  by (simp add: single_peak_window_def ECG_BUFFER_SIZE_def)

section \<open>The claims\<close>



text \<open>
  C2. Whatever samples \<open>vs\<close> are pushed into the buffer of a freshly started program,
  no push reads or writes outside the buffer, and push number \<open>k\<close> returns a window
  exactly when \<open>k\<close> is a multiple of \<open>ECG_BUFFER_SIZE\<close> (never before the
  \<open>ECG_BUFFER_SIZE\<close>-th push); that window holds the last \<open>ECG_BUFFER_SIZE\<close> samples
  pushed, oldest first.
\<close>

theorem sample_buffer_windows:
  "\<exists>b. pushes initial_buffer vs = Some (b, map (expected_output vs) [1..<length vs + 1])"
  using pushes_inv[OF buffer_inv_initial, of vs] by auto

text \<open>
  C3, as the spec states it, fails at the window that alternates between 0 and 2
  volts: it has \<open>ECG_BUFFER_SIZE\<close> samples, half of them above the threshold and
  above their predecessor, but the last rise has no sample after it, so 69 peaks are
  counted and the rate is \<open>69 * 60 * 360 / 140\<close>, not \<open>(N / 2) * 60 * R / N\<close>.
\<close>

theorem calculateHeartRate_half_window_counterexample:
  "length alternating_window = ECG_BUFFER_SIZE \<and>
   length (filter (\<lambda>x. x > threshold) alternating_window) = ECG_BUFFER_SIZE div 2 \<and>
   calculateHeartRate alternating_window = 69 * 60 * 360 / 140 \<and>
   calculateHeartRate alternating_window \<noteq>
     real (ECG_BUFFER_SIZE div 2) * 60 * real SAMPLING_RATE / real ECG_BUFFER_SIZE"
proof -
  have "length (filter (\<lambda>x. x > threshold) alternating_window) = ECG_BUFFER_SIZE div 2"
    unfolding alternating_window_def above_threshold_alternating
    by (simp add: ECG_BUFFER_SIZE_def)
  moreover have "calculateHeartRate alternating_window = 69 * 60 * 360 / 140"
    by (simp add: calculateHeartRate_peaks_of peaks_of_alternating ECG_BUFFER_SIZE_def
        SAMPLING_RATE_def)
  ultimately show ?thesis
    by (simp add: length_alternating_window ECG_BUFFER_SIZE_def SAMPLING_RATE_def)
qed

text \<open>
  C3, amended. \<open>calculateHeartRate\<close> returns \<open>peakCount * 60 / (N / R)\<close>, where
  \<open>peakCount\<close> is what the single-pass counter of the spec finds; a peak takes a
  rise and a later fall, so twice the count is at most the number of samples after
  the first, and a window of \<open>ECG_BUFFER_SIZE\<close> samples always yields less than
  \<open>(N / 2) * 60 * R / N\<close>.
\<close>

theorem calculateHeartRate_counts_peaks:
  "calculateHeartRate w = real (peaks_of w) * 60 / (real ECG_BUFFER_SIZE / real SAMPLING_RATE) \<and>
   2 * peaks_of w \<le> length w - 1 \<and>
   (length w = ECG_BUFFER_SIZE \<longrightarrow>
      calculateHeartRate w <
        real (ECG_BUFFER_SIZE div 2) * 60 * real SAMPLING_RATE / real ECG_BUFFER_SIZE)"
proof (intro conjI impI)
  show "calculateHeartRate w = real (peaks_of w) * 60 / (real ECG_BUFFER_SIZE / real SAMPLING_RATE)"
    by (rule calculateHeartRate_peaks_of)
  show b: "2 * peaks_of w \<le> length w - 1" by (rule peaks_of_bound)
  assume "length w = ECG_BUFFER_SIZE"
  then have "2 * peaks_of w \<le> ECG_BUFFER_SIZE - 1" using b by simp
  then have "peaks_of w < ECG_BUFFER_SIZE div 2"
    by (simp add: ECG_BUFFER_SIZE_def)
  then have "real (peaks_of w) < real (ECG_BUFFER_SIZE div 2)" by simp
  then show "calculateHeartRate w <
        real (ECG_BUFFER_SIZE div 2) * 60 * real SAMPLING_RATE / real ECG_BUFFER_SIZE"
    by (simp add: calculateHeartRate_peaks_of ECG_BUFFER_SIZE_def SAMPLING_RATE_def)
qed

text \<open>A window of \<open>ECG_BUFFER_SIZE\<close> samples with one peak: \<open>60 / (140 / 360)\<close> bpm.\<close>

theorem calculateHeartRate_counts_peaks_witness:
  "length single_peak_window = ECG_BUFFER_SIZE \<and>
   calculateHeartRate single_peak_window = 1 * 60 / (140 / 360) \<and>
   calculateHeartRate single_peak_window <
     real (ECG_BUFFER_SIZE div 2) * 60 * real SAMPLING_RATE / real ECG_BUFFER_SIZE"
  using calculateHeartRate_counts_peaks[of single_peak_window]
  by (simp add: peaks_of_single_peak_window length_single_peak_window
      ECG_BUFFER_SIZE_def SAMPLING_RATE_def)




text \<open>
  C5, as the spec states it, fails whenever both classifications fall within the
  cooldown. Right after boot, two anomalous classifications at clock readings 1000
  and 1100 are both within the cooldown counted from \<open>lastAnomalyTime = 0\<close>, and no
  notification is sent. After an alert at 5001, two anomalous classifications at 6000
  and 6100 add none to the one already sent.
\<close>

theorem two_anomalies_within_cooldown_counterexample:
  "(1100 :: 32 word) = 1000 + 100 \<and>
   anomalyMessages (alert_run boot_alert_state
     [Classified True \<lparr>atCheck = 1000, atTrigger = 1000, atMessage = 1000\<rparr>,
      Classified True \<lparr>atCheck = 1100, atTrigger = 1100, atMessage = 1100\<rparr>]) = [] \<and>
   (6100 :: 32 word) = 6000 + 100 \<and>
   anomalyMessages (alert_run alerted_state
     [Classified True \<lparr>atCheck = 6000, atTrigger = 6000, atMessage = 6000\<rparr>,
      Classified True \<lparr>atCheck = 6100, atTrigger = 6100, atMessage = 6100\<rparr>]) =
     anomalyMessages alerted_state"
  by (simp add: alert_step_def boot_alert_state_def alerted_state_def ANOMALY_COOLDOWN_def)

text \<open>
  C5, amended. An anomalous classification checked within \<open>ANOMALY_COOLDOWN\<close> of
  \<open>lastAnomalyTime\<close> changes nothing. Any run of events that are all checked within
  the cooldown of the last trigger leaves \<open>lastAnomalyTime\<close> and the notifications as
  they were and does not raise the buzzer pin. Two anomalous classifications 100 ms
  apart (the clock reading stored by the first taken before the second arrives) send
  at most one notification: one if either is checked more than the cooldown after the
  last trigger, none otherwise.
\<close>

theorem alert_debounce:
  "(atCheck t - lastAnomalyTime a \<le> ANOMALY_COOLDOWN \<longrightarrow> alert_step a True t = a) \<and>
   ((\<forall>e \<in> set es. checked_at e - lastAnomalyTime a \<le> ANOMALY_COOLDOWN) \<longrightarrow>
      lastAnomalyTime (alert_run a es) = lastAnomalyTime a \<and>
      anomalyMessages (alert_run a es) = anomalyMessages a \<and>
      (buzzerPin (alert_run a es) \<longrightarrow> buzzerPin a)) \<and>
   (atCheck t2 = atCheck t1 + 100 \<and> atTrigger t1 - atCheck t1 \<le> 100 \<longrightarrow>
      anomalyMessages (alert_run a [Classified True t1, Classified True t2]) =
        (if ANOMALY_COOLDOWN < atCheck t1 - lastAnomalyTime a
         then anomalyMessages a @ [atMessage t1]
         else if ANOMALY_COOLDOWN < atCheck t2 - lastAnomalyTime a
         then anomalyMessages a @ [atMessage t2]
         else anomalyMessages a))"
proof (intro conjI impI)
  assume "atCheck t - lastAnomalyTime a \<le> ANOMALY_COOLDOWN"
  then show "alert_step a True t = a" by (rule alert_step_within_cooldown)
next
  assume h: "\<forall>e \<in> set es. checked_at e - lastAnomalyTime a \<le> ANOMALY_COOLDOWN"
  note r = alert_run_within_cooldown[OF h]
  show "lastAnomalyTime (alert_run a es) = lastAnomalyTime a" using r by simp
  show "anomalyMessages (alert_run a es) = anomalyMessages a" using r by simp
  assume "buzzerPin (alert_run a es)"
  then show "buzzerPin a" using r by simp
next
  assume "atCheck t2 = atCheck t1 + 100 \<and> atTrigger t1 - atCheck t1 \<le> 100"
  then show "anomalyMessages (alert_run a [Classified True t1, Classified True t2]) =
        (if ANOMALY_COOLDOWN < atCheck t1 - lastAnomalyTime a
         then anomalyMessages a @ [atMessage t1]
         else if ANOMALY_COOLDOWN < atCheck t2 - lastAnomalyTime a
         then anomalyMessages a @ [atMessage t2]
         else anomalyMessages a)"
    using two_anomalies[of t2 t1 a] by simp
qed

text \<open>
  After an alert at 5001: an anomaly at 5100 changes nothing, and neither do two
  anomalies and a buzzer timeout between 5400 and 5800. From boot: anomalies at 5000
  and 5100 send the one notification of the first.
\<close>

theorem alert_debounce_witness:
  "alert_step alerted_state True \<lparr>atCheck = 5100, atTrigger = 5100, atMessage = 5100\<rparr> =
     alerted_state \<and>
   anomalyMessages (alert_run alerted_state
     [Classified True \<lparr>atCheck = 5400, atTrigger = 5400, atMessage = 5400\<rparr>,
      Timeout 5600,
      Classified True \<lparr>atCheck = 5800, atTrigger = 5800, atMessage = 5800\<rparr>]) = [5002] \<and>
   anomalyMessages (alert_run boot_alert_state
     [Classified True \<lparr>atCheck = 5000, atTrigger = 5001, atMessage = 5002\<rparr>,
      Classified True \<lparr>atCheck = 5100, atTrigger = 5100, atMessage = 5100\<rparr>]) = [5002]"
  using alert_debounce[where a = alerted_state
      and t = "\<lparr>atCheck = 5100, atTrigger = 5100, atMessage = 5100\<rparr>"
      and es = "[Classified True \<lparr>atCheck = 5400, atTrigger = 5400, atMessage = 5400\<rparr>,
        Timeout 5600,
        Classified True \<lparr>atCheck = 5800, atTrigger = 5800, atMessage = 5800\<rparr>]"
      and ?t1.0 = "\<lparr>atCheck = 5000, atTrigger = 5001, atMessage = 5002\<rparr>"
      and ?t2.0 = "\<lparr>atCheck = 5100, atTrigger = 5100, atMessage = 5100\<rparr>"]
    alert_debounce[where a = boot_alert_state
      and t = "\<lparr>atCheck = 5100, atTrigger = 5100, atMessage = 5100\<rparr>"
      and es = "[]"
      and ?t1.0 = "\<lparr>atCheck = 5000, atTrigger = 5001, atMessage = 5002\<rparr>"
      and ?t2.0 = "\<lparr>atCheck = 5100, atTrigger = 5100, atMessage = 5100\<rparr>"]
  by (simp add: alerted_state_def boot_alert_state_def ANOMALY_COOLDOWN_def)

text \<open>
  C8, as the spec states it, fails at a window shorter than the mean vector: with
  means \<open>[1, 1]\<close> and deviations \<open>[2, 2]\<close> the one-sample window \<open>[3]\<close> is
  standardized to \<open>[1]\<close>; nothing fails.
\<close>

theorem standardizeFeatures_short_window_counterexample:
  "length [3 :: real] \<noteq> length (featureMeans two_dim_model) \<and>
   standardizeFeatures two_dim_model [3] = Some [1]"
  using standardizeFeatures_in_range[of "[3]" two_dim_model]
  by (simp add: two_dim_model_def standardized_def)

text \<open>
  C8, amended. \<open>standardizeFeatures\<close> compares no lengths. It returns a result
  exactly when the window is no longer than the mean and deviation vectors, be it as
  long or shorter; a longer window makes it read past the end of those vectors. For a
  model without a zero deviation the result is \<open>(w[i] - mean[i]) / std[i]\<close> in every
  dimension \<open>i\<close> of the window.
\<close>

theorem standardizeFeatures_no_length_check:
  "(standardizeFeatures m w \<noteq> None \<longleftrightarrow>
      length w \<le> length (featureMeans m) \<and> length w \<le> length (featureStds m)) \<and>
   (0 \<notin> set (featureStds m) \<and>
    length w \<le> length (featureMeans m) \<and> length w \<le> length (featureStds m) \<longrightarrow>
      standardizeFeatures m w = Some (map (standardized m w) [0..<length w]))"
proof (cases "length w \<le> length (featureMeans m) \<and> length w \<le> length (featureStds m)")
  case True
  then show ?thesis by (simp add: standardizeFeatures_in_range)
next
  case False
  then have "length (featureMeans m) < length w \<or> length (featureStds m) < length w" by auto
  then have "standardizeFeatures_loop m 0 w = None"
    by (rule standardizeFeatures_loop_out_of_range) simp_all
  then show ?thesis using False by (simp add: standardizeFeatures_def)
qed

text \<open>
  With means \<open>[1, 1]\<close> and deviations \<open>[2, 2]\<close>: a window of matching length is
  standardized, a window of three samples is read out of range.
\<close>

theorem standardizeFeatures_no_length_check_witness:
  "0 \<notin> set (featureStds two_dim_model) \<and>
   standardizeFeatures two_dim_model [3, 5] = Some [1, 2] \<and>
   standardizeFeatures two_dim_model [3, 5, 7] = None"
  using standardizeFeatures_no_length_check[of two_dim_model "[3, 5]"]
    standardizeFeatures_no_length_check[of two_dim_model "[3, 5, 7]"]
  by (simp add: two_dim_model_def standardized_def upt_rec)



text \<open>
  C10. \<open>lastAnomalyTime\<close> is 0 at boot, so every event checked at a clock reading of
  at most \<open>ANOMALY_COOLDOWN\<close> leaves the boot state untouched: no alert, no
  notification, however many windows are anomalous. The first anomalous
  classification raises the alert exactly when its clock reading exceeds
  \<open>ANOMALY_COOLDOWN\<close>, as if an alert had fired at time 0.
\<close>

theorem no_alert_before_cooldown_after_boot:
  "lastAnomalyTime boot_alert_state = 0 \<and>
   ((\<forall>e \<in> set es. checked_at e \<le> ANOMALY_COOLDOWN) \<longrightarrow>
      alert_run boot_alert_state es = boot_alert_state) \<and>
   alert_step boot_alert_state True t =
     (if ANOMALY_COOLDOWN < atCheck t
      then \<lparr>anomalyDetected = True, lastAnomalyTime = atTrigger t, buzzerPin = True,
             anomalyMessages = [atMessage t]\<rparr>
      else boot_alert_state)"
  using boot_run[of es] boot_first_alert[of t] by (simp add: boot_alert_state_def)

text \<open>
  Anomalies at 400 and 3000 ms with a buzzer timeout between them leave the boot
  state as it is; an anomaly at 3001 ms raises the first alert.
\<close>

theorem no_alert_before_cooldown_after_boot_witness:
  "alert_run boot_alert_state
     [Classified True \<lparr>atCheck = 400, atTrigger = 400, atMessage = 400\<rparr>,
      Timeout 600,
      Classified True \<lparr>atCheck = 3000, atTrigger = 3000, atMessage = 3000\<rparr>] = boot_alert_state \<and>
   alert_step boot_alert_state True \<lparr>atCheck = 3001, atTrigger = 3002, atMessage = 3003\<rparr> =
     \<lparr>anomalyDetected = True, lastAnomalyTime = 3002, buzzerPin = True, anomalyMessages = [3003]\<rparr>"
  using no_alert_before_cooldown_after_boot[of
      "[Classified True \<lparr>atCheck = 400, atTrigger = 400, atMessage = 400\<rparr>,
        Timeout 600,
        Classified True \<lparr>atCheck = 3000, atTrigger = 3000, atMessage = 3000\<rparr>]"
      "\<lparr>atCheck = 3001, atTrigger = 3002, atMessage = 3003\<rparr>"]
  by (simp add: ANOMALY_COOLDOWN_def)

end
